theory Spec2Isabelle
  imports Main "HOL-Library.Word"
begin

section \<open>The LZW codec of \<^verbatim>\<open>lzw.py\<close>\<close>

text \<open>
  A shallow embedding of \<^verbatim>\<open>TrieNode\<close>, \<^verbatim>\<open>Trie\<close>, \<^verbatim>\<open>lzw_compress\<close> and
  \<^verbatim>\<open>lzw_decompress\<close>. Python's \<^verbatim>\<open>bytes\<close> are lists of 8-bit words, Python's unbounded
  integers (codes, \<^verbatim>\<open>next_code\<close>, \<^verbatim>\<open>max_table_size\<close>) are \<^typ>\<open>int\<close>. The parameter
  \<^verbatim>\<open>max_bits\<close> is a natural number: the interface asks for an integer of at least 9, and
  only for a negative one would \<^verbatim>\<open>2 ** max_bits\<close> not be an integer. An element of a code list is \<^typ>\<open>int option\<close>: an integer, or
  Python's \<^verbatim>\<open>None\<close>, which is what \<^verbatim>\<open>Trie.search\<close> returns on a miss and what
  \<^verbatim>\<open>lzw_compress\<close> would then append.
\<close>

subsection \<open>Data\<close>

type_synonym byte = "8 word"

type_synonym code = "int option"

text \<open>The exceptions the two functions can raise: \<^verbatim>\<open>pop(0)\<close> on an empty list, a dictionary
  lookup \<^verbatim>\<open>table[k]\<close> with a missing key, and the explicit \<^verbatim>\<open>raise ValueError\<close>.\<close>

datatype error = IndexError | KeyError | ValueError

text \<open>\<^verbatim>\<open>class TrieNode\<close>: the dictionary \<^verbatim>\<open>children\<close> and the optional \<^verbatim>\<open>code\<close>.\<close>

datatype TrieNode = TrieNode (children: "byte \<Rightarrow> TrieNode option") (code: "int option")

definition TrieNode_init :: TrieNode where
  "TrieNode_init = TrieNode (\<lambda>_. None) None"

text \<open>\<^verbatim>\<open>class Trie\<close>: the root node and the next code to hand out.\<close>

record Trie =
  root :: TrieNode
  next_code :: int

definition Trie_init :: Trie where
  "Trie_init = \<lparr>root = TrieNode_init, next_code = 256\<rparr>"

subsection \<open>The trie operations\<close>

text \<open>\<^verbatim>\<open>Trie.insert\<close> walks down from the root, creating the missing children, and stores the
  code at the last node. The walk over \<^verbatim>\<open>key\<close> is a recursion on the key.\<close>

fun insert_node :: "TrieNode \<Rightarrow> byte list \<Rightarrow> int \<Rightarrow> TrieNode" where
  "insert_node node [] c = TrieNode (children node) (Some c)"
| "insert_node node (char # key) c =
     (let child = (case children node char of None \<Rightarrow> TrieNode_init | Some n \<Rightarrow> n)
      in TrieNode ((children node)(char \<mapsto> insert_node child key c)) (code node))"

definition Trie_insert :: "Trie \<Rightarrow> byte list \<Rightarrow> int \<Rightarrow> Trie" where
  "Trie_insert t key c = t\<lparr>root := insert_node (root t) key c\<rparr>"

text \<open>\<^verbatim>\<open>Trie.search\<close> returns \<^verbatim>\<open>None\<close> as soon as a child is missing, and otherwise the
  \<^verbatim>\<open>code\<close> field of the node reached, which may itself be \<^verbatim>\<open>None\<close>.\<close>

fun search_node :: "TrieNode \<Rightarrow> byte list \<Rightarrow> int option" where
  "search_node node [] = code node"
| "search_node node (char # key) =
     (case children node char of None \<Rightarrow> None | Some n \<Rightarrow> search_node n key)"

definition Trie_search :: "Trie \<Rightarrow> byte list \<Rightarrow> int option" where
  "Trie_search t key = search_node (root t) key"

text \<open>\<^verbatim>\<open>Trie.get_next_code\<close> returns the counter and increments it.\<close>

definition Trie_get_next_code :: "Trie \<Rightarrow> int \<times> Trie" where
  "Trie_get_next_code t = (next_code t, t\<lparr>next_code := next_code t + 1\<rparr>)"

subsection \<open>Compression\<close>

text \<open>The local variables of \<^verbatim>\<open>lzw_compress\<close>.\<close>

record compress_state =
  trie :: Trie
  current_bytes :: "byte list"
  compressed_data :: "code list"
  current_code_size :: nat
  max_table_size :: int

text \<open>The loop \<^verbatim>\<open>for i in range(256): trie.insert(bytes([i]), i)\<close>.\<close>

definition initial_trie :: Trie where
  "initial_trie = foldl (\<lambda>t i. Trie_insert t [of_nat i] (int i)) Trie_init [0..<256]"

text \<open>The state before the main loop. The first assignment to \<^verbatim>\<open>max_table_size\<close>
  (\<^verbatim>\<open>2 ** max_bits\<close>) is overwritten before it is read.\<close>

definition compress_init :: "nat \<Rightarrow> bool \<Rightarrow> compress_state" where
  "compress_init max_bits variable_bits =
     (let ccs = (if variable_bits then 9 else max_bits)
      in \<lparr>trie = initial_trie, current_bytes = [], compressed_data = [],
          current_code_size = ccs, max_table_size = 2 ^ ccs\<rparr>)"

text \<open>The body of \<^verbatim>\<open>for byte in input_bytes\<close>.\<close>

definition compress_step :: "nat \<Rightarrow> bool \<Rightarrow> compress_state \<Rightarrow> byte \<Rightarrow> compress_state" where
  "compress_step max_bits variable_bits st byte =
     (let new_bytes = current_bytes st @ [byte] in
      if Trie_search (trie st) new_bytes \<noteq> None then st\<lparr>current_bytes := new_bytes\<rparr>
      else
        let st1 = st\<lparr>compressed_data :=
                        compressed_data st @ [Trie_search (trie st) (current_bytes st)]\<rparr>;
            st2 = (if next_code (trie st1) < max_table_size st1
                   then (case Trie_get_next_code (trie st1) of
                           (c, t) \<Rightarrow> st1\<lparr>trie := Trie_insert t new_bytes c\<rparr>)
                   else st1);
            st3 = st2\<lparr>current_bytes := [byte]\<rparr>
        in if variable_bits \<and> next_code (trie st3) \<ge> max_table_size st3
              \<and> current_code_size st3 < max_bits
           then st3\<lparr>current_code_size := current_code_size st3 + 1,
                    max_table_size := 2 ^ (current_code_size st3 + 1)\<rparr>
           else st3)"

text \<open>The state when the loop has consumed the bytes \<open>bs\<close>.\<close>

definition compress_loop :: "nat \<Rightarrow> bool \<Rightarrow> byte list \<Rightarrow> compress_state" where
  "compress_loop max_bits variable_bits bs =
     foldl (compress_step max_bits variable_bits) (compress_init max_bits variable_bits) bs"

text \<open>The flush after the loop: \<^verbatim>\<open>if current_bytes: compressed_data.append(...)\<close>.\<close>

definition compress_flush :: "compress_state \<Rightarrow> code list" where
  "compress_flush st =
     (if current_bytes st \<noteq> []
      then compressed_data st @ [Trie_search (trie st) (current_bytes st)]
      else compressed_data st)"

definition lzw_compress :: "byte list \<Rightarrow> nat \<Rightarrow> bool \<Rightarrow> code list \<times> nat" where
  "lzw_compress input_bytes max_bits variable_bits =
     (let st = compress_loop max_bits variable_bits input_bytes
      in (compress_flush st, current_code_size st))"

text \<open>The states of one compression run, in order: before the loop and after each byte.\<close>

fun compress_states :: "nat \<Rightarrow> bool \<Rightarrow> compress_state \<Rightarrow> byte list \<Rightarrow> compress_state list" where
  "compress_states max_bits variable_bits st [] = [st]"
| "compress_states max_bits variable_bits st (byte # bs) =
     st # compress_states max_bits variable_bits (compress_step max_bits variable_bits st byte) bs"

subsection \<open>Decompression\<close>

text \<open>The local variables of \<^verbatim>\<open>lzw_decompress\<close>. The dictionary \<^verbatim>\<open>table\<close> is keyed by the
  elements of the code list.\<close>

record decompress_state =
  dec_current_code_size :: nat
  dec_max_table_size :: int
  table :: "code \<Rightarrow> byte list option"
  dec_next_code :: int
  dec_current_bytes :: "byte list"
  decompressed_data :: "byte list list"

text \<open>\<^verbatim>\<open>{i: bytes([i]) for i in range(256)}\<close>.\<close>

definition initial_table :: "code \<Rightarrow> byte list option" where
  "initial_table = map_of (map (\<lambda>i. (Some (int i), [of_nat i])) [0..<256])"

text \<open>The state when the loop starts, \<open>cb\<close> being \<^verbatim>\<open>table[current_code]\<close>.\<close>

definition decompress_init :: "nat \<Rightarrow> bool \<Rightarrow> byte list \<Rightarrow> decompress_state" where
  "decompress_init max_bits variable_bits cb =
     (let ccs = (if variable_bits then 9 else max_bits)
      in \<lparr>dec_current_code_size = ccs, dec_max_table_size = 2 ^ ccs, table = initial_table,
          dec_next_code = 256, dec_current_bytes = cb, decompressed_data = [cb]\<rparr>)"

text \<open>The body of \<^verbatim>\<open>for code in compressed_data\<close>.\<close>

definition decompress_step ::
  "nat \<Rightarrow> bool \<Rightarrow> decompress_state \<Rightarrow> code \<Rightarrow> error + decompress_state" where
  "decompress_step max_bits variable_bits st c =
     (case (case table st c of
              Some e \<Rightarrow> Inr e
            | None \<Rightarrow>
                if c = Some (dec_next_code st)
                then Inr (dec_current_bytes st @ take 1 (dec_current_bytes st))
                else Inl ValueError) of
        Inl e \<Rightarrow> Inl e
      | Inr entry \<Rightarrow>
          let st1 = st\<lparr>decompressed_data := decompressed_data st @ [entry]\<rparr>;
              st2 = (if dec_next_code st1 < dec_max_table_size st1
                     then st1\<lparr>table := (table st1)(Some (dec_next_code st1) \<mapsto>
                                         dec_current_bytes st1 @ take 1 entry),
                              dec_next_code := dec_next_code st1 + 1\<rparr>
                     else st1);
              st3 = (if variable_bits \<and> dec_next_code st2 \<ge> dec_max_table_size st2
                        \<and> dec_current_code_size st2 < max_bits
                     then st2\<lparr>dec_current_code_size := dec_current_code_size st2 + 1,
                              dec_max_table_size := 2 ^ (dec_current_code_size st2 + 1)\<rparr>
                     else st2)
          in Inr (st3\<lparr>dec_current_bytes := entry\<rparr>))"

fun decompress_loop ::
  "nat \<Rightarrow> bool \<Rightarrow> decompress_state \<Rightarrow> code list \<Rightarrow> error + decompress_state" where
  "decompress_loop max_bits variable_bits st [] = Inr st"
| "decompress_loop max_bits variable_bits st (c # cs) =
     (case decompress_step max_bits variable_bits st c of
        Inl e \<Rightarrow> Inl e
      | Inr st' \<Rightarrow> decompress_loop max_bits variable_bits st' cs)"

text \<open>Everything up to the \<^verbatim>\<open>return\<close>: the outcome (an exception, or the local variables at
  the end of the loop), paired with the contents of the caller's list after the call, since
  \<^verbatim>\<open>compressed_data.pop(0)\<close> removes the first element of the list object it was given.\<close>

definition decompress_run ::
  "code list \<Rightarrow> nat \<Rightarrow> bool \<Rightarrow> (error + decompress_state) \<times> code list" where
  "decompress_run compressed max_bits variable_bits =
     (case compressed of
        [] \<Rightarrow> (Inl IndexError, [])
      | current_code # rest \<Rightarrow>
          (case initial_table current_code of
             None \<Rightarrow> (Inl KeyError, rest)
           | Some cb \<Rightarrow>
               (decompress_loop max_bits variable_bits
                  (decompress_init max_bits variable_bits cb) rest, rest)))"

text \<open>\<^verbatim>\<open>lzw_decompress\<close>: the result \<^verbatim>\<open>b''.join(decompressed_data)\<close> or the exception, and
  the caller's list after the call.\<close>

definition lzw_decompress ::
  "code list \<Rightarrow> nat \<Rightarrow> bool \<Rightarrow> (error + byte list) \<times> code list" where
  "lzw_decompress compressed max_bits variable_bits =
     (case decompress_run compressed max_bits variable_bits of
        (Inl e, l) \<Rightarrow> (Inl e, l)
      | (Inr st, l) \<Rightarrow> (Inr (concat (decompressed_data st)), l))"

text \<open>The states of the decoding loop, in order, up to the end or to the step that raises.\<close>

fun decompress_states ::
  "nat \<Rightarrow> bool \<Rightarrow> decompress_state \<Rightarrow> code list \<Rightarrow> decompress_state list" where
  "decompress_states max_bits variable_bits st [] = [st]"
| "decompress_states max_bits variable_bits st (c # cs) =
     st # (case decompress_step max_bits variable_bits st c of
             Inl e \<Rightarrow> []
           | Inr st' \<Rightarrow> decompress_states max_bits variable_bits st' cs)"

subsection \<open>The two loops side by side\<close>

text \<open>Both loops update the triple (next code, code width, table ceiling) in the same way
  after each code: one more code if the table is below its ceiling, then one more bit if
  the width is variable, the ceiling is reached and \<^verbatim>\<open>max_bits\<close> allows it.\<close>

definition grow :: "nat \<Rightarrow> bool \<Rightarrow> int \<times> nat \<times> int \<Rightarrow> int \<times> nat \<times> int" where
  "grow max_bits variable_bits w =
     (case w of (nc, ccs, mts) \<Rightarrow>
        let nc' = (if nc < mts then nc + 1 else nc)
        in if variable_bits \<and> nc' \<ge> mts \<and> ccs < max_bits
           then (nc', ccs + 1, 2 ^ (ccs + 1)) else (nc', ccs, mts))"

text \<open>The triple in the encoder's and in the decoder's variables.\<close>

definition compress_width :: "compress_state \<Rightarrow> int \<times> nat \<times> int" where
  "compress_width st = (next_code (trie st), current_code_size st, max_table_size st)"

definition decompress_width :: "decompress_state \<Rightarrow> int \<times> nat \<times> int" where
  "decompress_width st = (dec_next_code st, dec_current_code_size st, dec_max_table_size st)"

text \<open>The relation between the encoder right after it has emitted a code and the decoder
  that has consumed the codes emitted so far: the encoder's counters are one update ahead,
  and its trie holds the pairs of the decoder's table and, if the table was below its ceiling,
  one more, which the decoder will register under its \<^verbatim>\<open>next_code\<close> with the next code
  it consumes. The relation stays true while the encoder extends its current match.\<close>

definition lockstep :: "nat \<Rightarrow> bool \<Rightarrow> compress_state \<Rightarrow> decompress_state \<Rightarrow> bool" where
  "lockstep max_bits variable_bits E D \<longleftrightarrow>
     compress_width E = grow max_bits variable_bits (decompress_width D) \<and>
     current_bytes E \<noteq> [] \<and> dec_current_bytes D \<noteq> [] \<and>
     Trie_search (trie E) (current_bytes E) \<noteq> None \<and>
     (\<forall>b. Trie_search (trie E) [b] \<noteq> None) \<and>
     (\<forall>k. table D k \<noteq> None \<longrightarrow> (\<exists>c. k = Some c \<and> c < dec_next_code D)) \<and>
     (\<forall>s c. Trie_search (trie E) s = Some c \<longleftrightarrow>
        (table D (Some c) = Some s \<or>
         (dec_next_code D < dec_max_table_size D \<and> c = dec_next_code D \<and>
          s = dec_current_bytes D @ [hd (current_bytes E)])))"

text \<open>The encoder having consumed the bytes \<open>p\<close>, and the decoder having consumed the codes
  the encoder has emitted so far.\<close>

definition synced ::
  "nat \<Rightarrow> bool \<Rightarrow> compress_state \<Rightarrow> decompress_state \<Rightarrow> byte list \<Rightarrow> bool" where
  "synced max_bits variable_bits E D p \<longleftrightarrow>
     lockstep max_bits variable_bits E D \<and>
     fst (decompress_run (compressed_data E) max_bits variable_bits) = Inr D \<and>
     concat (decompressed_data D) @ current_bytes E = p"

text \<open>The code \<open>c\<close> is handed out during the run on \<open>x\<close>: at some byte \<open>b\<close> of the input,
  the bytes \<open>p\<close> before it consumed, the extended sequence is not in the trie, the table is
  below its ceiling, \<open>c\<close> is the counter \<^verbatim>\<open>next_code\<close>, and \<open>c\<close> is below two to the power
  of the width current at that moment.\<close>

definition assigned_in :: "nat \<Rightarrow> bool \<Rightarrow> byte list \<Rightarrow> int \<Rightarrow> bool" where
  "assigned_in max_bits variable_bits x c \<longleftrightarrow>
     (\<exists>p b q. x = p @ b # q \<and>
        (let st = compress_loop max_bits variable_bits p in
           Trie_search (trie st) (current_bytes st @ [b]) = None \<and>
           next_code (trie st) < max_table_size st \<and>
           c = next_code (trie st) \<and>
           c < 2 ^ current_code_size st))"

text \<open>Whether the trie registers the sequence \<open>s\<close> under the code \<open>k\<close>, and whether the
  table maps the code \<open>k\<close> to the sequence \<open>s\<close>.\<close>

definition trie_holds :: "Trie \<Rightarrow> byte list \<Rightarrow> code \<Rightarrow> bool" where
  "trie_holds t s k \<longleftrightarrow> k \<noteq> None \<and> Trie_search t s = k"

definition table_holds :: "(code \<Rightarrow> byte list option) \<Rightarrow> byte list \<Rightarrow> code \<Rightarrow> bool" where
  "table_holds tbl s k \<longleftrightarrow> tbl k = Some s"

section \<open>Properties\<close>

subsection \<open>The trie as a map from sequences to codes\<close>

lemma search_node_init [simp]: "search_node TrieNode_init k = None"
  by (cases k) (simp_all add: TrieNode_init_def)

lemma search_insert_node:
  "search_node (insert_node n k c) k' = (if k' = k then Some c else search_node n k')"
proof (induction k arbitrary: n k')
  case Nil
  then show ?case by (cases k') auto
next
  case (Cons a k)
  then show ?case by (cases k') (auto simp: Let_def split: option.splits)
qed

lemma Trie_search_insert:
  "Trie_search (Trie_insert t k c) k' = (if k' = k then Some c else Trie_search t k')"
  by (simp add: Trie_search_def Trie_insert_def search_insert_node)

lemma next_code_insert [simp]: "next_code (Trie_insert t k c) = next_code t"
  by (simp add: Trie_insert_def)

lemma Trie_search_init [simp]: "Trie_search Trie_init k = None"
  by (simp add: Trie_search_def Trie_init_def)

lemma unat_byte_less: "unat (b::byte) < 256"
  using unsigned_less [of b, where 'a = nat] by simp

lemma byte_of_nat_eq: "n < 256 \<Longrightarrow> (b = (of_nat n :: byte)) = (unat b = n)"
proof
  assume "n < 256" "b = of_nat n"
  then show "unat b = n" by (simp add: unat_of_nat)
next
  assume "unat b = n"
  then show "b = of_nat n" by (metis of_nat_unat ucast_id)
qed

lemma initial_trie_upto:
  "n \<le> 256 \<Longrightarrow>
   Trie_search (foldl (\<lambda>t i. Trie_insert t [of_nat i] (int i)) t [0..<n]) s =
     (case s of [b] \<Rightarrow> if unat b < n then Some (uint b) else Trie_search t s
      | _ \<Rightarrow> Trie_search t s)"
proof (induction n)
  case 0
  then show ?case by (simp split: list.splits)
next
  case (Suc n)
  let ?f = "\<lambda>t i. Trie_insert t [of_nat i] (int i)"
  from Suc.prems have n: "n < 256" by arith
  have step: "foldl ?f t [0..<Suc n] = Trie_insert (foldl ?f t [0..<n]) [of_nat n] (int n)"
    by simp
  have IH: "Trie_search (foldl ?f t [0..<n]) s =
     (case s of [b] \<Rightarrow> if unat b < n then Some (uint b) else Trie_search t s
      | _ \<Rightarrow> Trie_search t s)"
    using Suc.IH n by simp
  show ?case
  proof (cases "s = [of_nat n]")
    case True
    then have "unat (of_nat n :: byte) = n" using byte_of_nat_eq [OF n] by blast
    then show ?thesis unfolding step Trie_search_insert using True
      by (simp add: uint_nat)
  next
    case False
    then have "\<And>b. s = [b] \<Longrightarrow> unat b \<noteq> n" using byte_of_nat_eq [OF n] by blast
    then show ?thesis unfolding step Trie_search_insert IH using False
      by (auto simp: less_Suc_eq split: list.splits)
  qed
qed

lemma next_code_initial_upto:
  "next_code (foldl (\<lambda>t i. Trie_insert t [of_nat i] (int i)) t xs) = next_code t"
  by (induction xs arbitrary: t) simp_all

lemma next_code_initial_trie [simp]: "next_code initial_trie = 256"
  unfolding initial_trie_def next_code_initial_upto by (simp add: Trie_init_def)

lemma search_initial_trie:
  "Trie_search initial_trie s = (case s of [b] \<Rightarrow> Some (uint b) | _ \<Rightarrow> None)"
proof -
  have "(256::nat) \<le> 256" by simp
  from initial_trie_upto [OF this, of Trie_init s]
  show ?thesis unfolding initial_trie_def
    by (simp only: Trie_search_init unat_byte_less if_True)
qed

lemma initial_table_upto:
  "map_of (map (\<lambda>i. (Some (int i), [of_nat i :: byte])) [0..<n]) k =
     (case k of None \<Rightarrow> None
      | Some c \<Rightarrow> if 0 \<le> c \<and> c < int n then Some [word_of_int c] else None)"
proof (induction n)
  case 0
  then show ?case by (auto split: option.splits)
next
  case (Suc n)
  show ?case
  proof (cases k)
    case None
    then show ?thesis using Suc by (simp add: map_add_def)
  next
    case (Some c)
    show ?thesis
    proof (cases "c = int n")
      case True
      then show ?thesis using Some Suc by (simp add: map_add_def)
    next
      case False
      then show ?thesis using Some Suc by (auto simp: map_add_def)
    qed
  qed
qed

lemma initial_table_eq:
  "initial_table k =
     (case k of None \<Rightarrow> None
      | Some c \<Rightarrow> if 0 \<le> c \<and> c < 256 then Some [word_of_int c] else None)"
proof -
  have "int 256 = 256" by simp
  then show ?thesis unfolding initial_table_def initial_table_upto by (simp only:)
qed


lemma Trie_search_next_code_update [simp]:
  "Trie_search (t\<lparr>next_code := n\<rparr>) k = Trie_search t k"
  by (simp add: Trie_search_def)

lemma compress_step_hit:
  "Trie_search (trie st) (current_bytes st @ [b]) \<noteq> None \<Longrightarrow>
   compress_step mb vw st b = st\<lparr>current_bytes := current_bytes st @ [b]\<rparr>"
  by (simp add: compress_step_def)

lemma compress_step_miss:
  assumes "Trie_search (trie st) (current_bytes st @ [b]) = None"
  shows "current_bytes (compress_step mb vw st b) = [b]"
    and "compressed_data (compress_step mb vw st b) =
           compressed_data st @ [Trie_search (trie st) (current_bytes st)]"
    and "compress_width (compress_step mb vw st b) = grow mb vw (compress_width st)"
    and "Trie_search (trie (compress_step mb vw st b)) s =
           (if next_code (trie st) < max_table_size st \<and> s = current_bytes st @ [b]
            then Some (next_code (trie st)) else Trie_search (trie st) s)"
  using assms
  by (auto simp: compress_step_def Let_def Trie_get_next_code_def compress_width_def grow_def
       Trie_search_insert)

lemma decompress_step_entry:
  assumes "table D c = Some e \<or> (table D c = None \<and> c = Some (dec_next_code D) \<and>
             e = dec_current_bytes D @ take 1 (dec_current_bytes D))"
  shows "\<exists>D'. decompress_step mb vw D c = Inr D' \<and>
           decompressed_data D' = decompressed_data D @ [e] \<and>
           dec_current_bytes D' = e \<and>
           decompress_width D' = grow mb vw (decompress_width D) \<and>
           table D' = (if dec_next_code D < dec_max_table_size D
                       then (table D)(Some (dec_next_code D) \<mapsto> dec_current_bytes D @ take 1 e)
                       else table D)"
  using assms
  by (auto simp: decompress_step_def Let_def decompress_width_def grow_def)


lemma take1_hd: "xs \<noteq> [] \<Longrightarrow> take 1 xs = [hd xs]"
  by (cases xs) simp_all

lemma lockstepD:
  assumes "lockstep mb vw E D"
  shows "compress_width E = grow mb vw (decompress_width D)"
    and "current_bytes E \<noteq> []"
    and "dec_current_bytes D \<noteq> []"
    and "Trie_search (trie E) (current_bytes E) \<noteq> None"
    and "\<And>b. Trie_search (trie E) [b] \<noteq> None"
    and "\<And>k. table D k \<noteq> None \<Longrightarrow> \<exists>c. k = Some c \<and> c < dec_next_code D"
    and "\<And>s c. Trie_search (trie E) s = Some c \<longleftrightarrow>
        (table D (Some c) = Some s \<or>
         (dec_next_code D < dec_max_table_size D \<and> c = dec_next_code D \<and>
          s = dec_current_bytes D @ [hd (current_bytes E)]))"
  using assms unfolding lockstep_def by blast+

lemma lockstepI:
  assumes "compress_width E = grow mb vw (decompress_width D)"
    and "current_bytes E \<noteq> []"
    and "dec_current_bytes D \<noteq> []"
    and "Trie_search (trie E) (current_bytes E) \<noteq> None"
    and "\<And>b. Trie_search (trie E) [b] \<noteq> None"
    and "\<And>k. table D k \<noteq> None \<Longrightarrow> \<exists>c. k = Some c \<and> c < dec_next_code D"
    and "\<And>s c. Trie_search (trie E) s = Some c \<longleftrightarrow>
        (table D (Some c) = Some s \<or>
         (dec_next_code D < dec_max_table_size D \<and> c = dec_next_code D \<and>
          s = dec_current_bytes D @ [hd (current_bytes E)]))"
  shows "lockstep mb vw E D"
  using assms unfolding lockstep_def by blast

lemma table_next_code_None:
  assumes "lockstep mb vw E D"
  shows "table D (Some (dec_next_code D)) = None"
proof (cases "table D (Some (dec_next_code D))")
  case (Some e)
  then show ?thesis using lockstepD(6) [OF assms, of "Some (dec_next_code D)"] by auto
qed simp

lemma lockstep_entry:
  assumes L: "lockstep mb vw E D"
  shows "table D (Trie_search (trie E) (current_bytes E)) = Some (current_bytes E) \<or>
         (table D (Trie_search (trie E) (current_bytes E)) = None \<and>
          Trie_search (trie E) (current_bytes E) = Some (dec_next_code D) \<and>
          current_bytes E = dec_current_bytes D @ take 1 (dec_current_bytes D))"
proof -
  from lockstepD(4) [OF L] obtain c0
    where c0: "Trie_search (trie E) (current_bytes E) = Some c0" by blast
  note prev = lockstepD(3) [OF L]
  from c0 lockstepD(7) [OF L, of "current_bytes E" c0]
  consider (old) "table D (Some c0) = Some (current_bytes E)"
    | (new) "c0 = dec_next_code D"
            "current_bytes E = dec_current_bytes D @ [hd (current_bytes E)]"
    by blast
  then show ?thesis
  proof cases
    case old
    then show ?thesis unfolding c0 by simp
  next
    case new
    have none: "table D (Some c0) = None"
      using table_next_code_None [OF L] new(1) by simp
    from new(2) prev have "hd (current_bytes E) = hd (dec_current_bytes D)"
      by (metis hd_append2)
    with new(2) take1_hd [OF prev]
    have "current_bytes E = dec_current_bytes D @ take 1 (dec_current_bytes D)"
      by simp
    with none new(1) show ?thesis unfolding c0 by blast
  qed
qed

lemma lockstep_hit:
  assumes L: "lockstep mb vw E D" and hit: "Trie_search (trie E) (current_bytes E @ [b]) \<noteq> None"
  shows "lockstep mb vw (compress_step mb vw E b) D"
proof -
  note cur = lockstepD(2) [OF L]
  then have hd: "hd (current_bytes E @ [b]) = hd (current_bytes E)" by simp
  show ?thesis unfolding compress_step_hit [OF hit]
  proof (rule lockstepI)
    show "compress_width (E\<lparr>current_bytes := current_bytes E @ [b]\<rparr>) =
            grow mb vw (decompress_width D)"
      using lockstepD(1) [OF L] by (simp add: compress_width_def)
    show "Trie_search (trie (E\<lparr>current_bytes := current_bytes E @ [b]\<rparr>))
            (current_bytes (E\<lparr>current_bytes := current_bytes E @ [b]\<rparr>)) \<noteq> None"
      using hit by simp
    show "Trie_search (trie (E\<lparr>current_bytes := current_bytes E @ [b]\<rparr>)) [b'] \<noteq> None" for b'
      using lockstepD(5) [OF L] by simp
    show "Trie_search (trie (E\<lparr>current_bytes := current_bytes E @ [b]\<rparr>)) s = Some c \<longleftrightarrow>
        (table D (Some c) = Some s \<or>
         (dec_next_code D < dec_max_table_size D \<and> c = dec_next_code D \<and>
          s = dec_current_bytes D @ [hd (current_bytes (E\<lparr>current_bytes := current_bytes E @ [b]\<rparr>))]))"
      for s c
      using lockstepD(7) [OF L, of s c] hd by simp
  qed (use lockstepD [OF L] in simp_all)
qed

lemma lockstep_table_step:
  assumes L: "lockstep mb vw E D"
    and t': "table D' = (if dec_next_code D < dec_max_table_size D
               then (table D)(Some (dec_next_code D) \<mapsto>
                      dec_current_bytes D @ take 1 (current_bytes E))
               else table D)"
  shows "Trie_search (trie E) s = Some c \<longleftrightarrow> table D' (Some c) = Some s"
proof -
  have t1: "take 1 (current_bytes E) = [hd (current_bytes E)]"
    by (rule take1_hd [OF lockstepD(2) [OF L]])
  show ?thesis
  proof (cases "dec_next_code D < dec_max_table_size D")
    case True
    then have "table D' (Some c) = Some s \<longleftrightarrow>
      (if c = dec_next_code D then s = dec_current_bytes D @ [hd (current_bytes E)]
       else table D (Some c) = Some s)"
      unfolding t' t1 by auto
    then show ?thesis
      using lockstepD(7) [OF L, of s c] table_next_code_None [OF L] True by auto
  next
    case False
    then show ?thesis using lockstepD(7) [OF L, of s c] unfolding t' by simp
  qed
qed

lemma lockstep_miss:
  assumes L: "lockstep mb vw E D" and miss: "Trie_search (trie E) (current_bytes E @ [b]) = None"
  shows "\<exists>D'. decompress_step mb vw D (Trie_search (trie E) (current_bytes E)) = Inr D' \<and>
           decompressed_data D' = decompressed_data D @ [current_bytes E] \<and>
           lockstep mb vw (compress_step mb vw E b) D'"
proof -
  let ?E' = "compress_step mb vw E b"
  let ?cur = "current_bytes E"
  from decompress_step_entry [OF lockstep_entry [OF L], of mb vw]
  obtain D' where D': "decompress_step mb vw D (Trie_search (trie E) ?cur) = Inr D'"
    and out: "decompressed_data D' = decompressed_data D @ [?cur]"
    and prev': "dec_current_bytes D' = ?cur"
    and w': "decompress_width D' = grow mb vw (decompress_width D)"
    and t': "table D' = (if dec_next_code D < dec_max_table_size D
                       then (table D)(Some (dec_next_code D) \<mapsto> dec_current_bytes D @ take 1 ?cur)
                       else table D)"
    by blast
  note cur = lockstepD(2) [OF L]
  have wD': "decompress_width D' = compress_width E" using w' lockstepD(1) [OF L] by simp
  then have nc: "dec_next_code D' = next_code (trie E)"
    and mts: "dec_max_table_size D' = max_table_size E"
    by (simp_all add: decompress_width_def compress_width_def)
  have ncD: "dec_next_code D' = (if dec_next_code D < dec_max_table_size D
                                then dec_next_code D + 1 else dec_next_code D)"
    using w' by (auto simp: decompress_width_def grow_def Let_def split: if_splits)
  note eqv' = lockstep_table_step [OF L t']
  have 5: "Trie_search (trie ?E') [b'] \<noteq> None" for b'
    unfolding compress_step_miss(4) [OF miss] using lockstepD(5) [OF L, of b'] by simp
  have "lockstep mb vw ?E' D'"
  proof (rule lockstepI)
    show "compress_width ?E' = grow mb vw (decompress_width D')"
      using compress_step_miss(3) [OF miss] wD' by simp
    show "current_bytes ?E' \<noteq> []" using compress_step_miss(1) [OF miss] by simp
    show "dec_current_bytes D' \<noteq> []" using prev' cur by simp
    show "Trie_search (trie ?E') [b'] \<noteq> None" for b' by (rule 5)
    show "Trie_search (trie ?E') (current_bytes ?E') \<noteq> None"
      unfolding compress_step_miss(1) [OF miss] by (rule 5)
    show "\<exists>c. k = Some c \<and> c < dec_next_code D'" if "table D' k \<noteq> None" for k
    proof (cases "k = Some (dec_next_code D)")
      case True
      then show ?thesis using that table_next_code_None [OF L] unfolding t' ncD
        by (auto split: if_splits)
    next
      case False
      then have "table D k \<noteq> None" using that unfolding t' by (auto split: if_splits)
      from lockstepD(6) [OF L this] show ?thesis unfolding ncD by auto
    qed
    show "Trie_search (trie ?E') s = Some c \<longleftrightarrow>
        (table D' (Some c) = Some s \<or>
         (dec_next_code D' < dec_max_table_size D' \<and> c = dec_next_code D' \<and>
          s = dec_current_bytes D' @ [hd (current_bytes ?E')]))" for s c
    proof -
      have "table D' (Some c') \<noteq> Some (?cur @ [b])" for c'
        using eqv' [of "?cur @ [b]" c'] miss by simp
      then show ?thesis
        unfolding compress_step_miss(4) [OF miss] compress_step_miss(1) [OF miss] prev' nc mts
        using eqv' [of s c] by auto
    qed
  qed
  with D' out show ?thesis by blast
qed

lemma lockstep_flush:
  assumes L: "lockstep mb vw E D"
  shows "\<exists>D'. decompress_step mb vw D (Trie_search (trie E) (current_bytes E)) = Inr D' \<and>
           decompressed_data D' = decompressed_data D @ [current_bytes E] \<and>
           (\<forall>s c. Trie_search (trie E) s = Some c \<longleftrightarrow> table D' (Some c) = Some s) \<and>
           table D' None = None"
proof -
  let ?cur = "current_bytes E"
  from decompress_step_entry [OF lockstep_entry [OF L], of mb vw]
  obtain D' where D': "decompress_step mb vw D (Trie_search (trie E) ?cur) = Inr D'"
    and out: "decompressed_data D' = decompressed_data D @ [?cur]"
    and t': "table D' = (if dec_next_code D < dec_max_table_size D
                       then (table D)(Some (dec_next_code D) \<mapsto> dec_current_bytes D @ take 1 ?cur)
                       else table D)"
    by blast
  note eqv' = lockstep_table_step [OF L t']
  have "table D None = None" using lockstepD(6) [OF L, of None] by (cases "table D None") auto
  then have "table D' None = None" unfolding t' by simp
  with D' out eqv' show ?thesis by blast
qed

subsection \<open>The states before the loops\<close>

lemma compress_init_simps [simp]:
  "trie (compress_init mb vw) = initial_trie"
  "current_bytes (compress_init mb vw) = []"
  "compressed_data (compress_init mb vw) = []"
  "current_code_size (compress_init mb vw) = (if vw then 9 else mb)"
  "max_table_size (compress_init mb vw) = 2 ^ (if vw then 9 else mb)"
  by (simp_all add: compress_init_def)

lemma decompress_init_simps [simp]:
  "table (decompress_init mb vw cb) = initial_table"
  "dec_current_bytes (decompress_init mb vw cb) = cb"
  "decompressed_data (decompress_init mb vw cb) = [cb]"
  "dec_next_code (decompress_init mb vw cb) = 256"
  "dec_current_code_size (decompress_init mb vw cb) = (if vw then 9 else mb)"
  "dec_max_table_size (decompress_init mb vw cb) = 2 ^ (if vw then 9 else mb)"
  by (simp_all add: decompress_init_def)

lemma snd_decompress_run: "snd (decompress_run (c # cs) mb vw) = cs"
  by (simp add: decompress_run_def split: option.splits)

lemma snd_lzw_decompress: "snd (lzw_decompress cs mb vw) = snd (decompress_run cs mb vw)"
  by (simp add: lzw_decompress_def split: prod.splits sum.splits)

subsection \<open>The decoder follows the encoder\<close>

lemma decompress_loop_snoc:
  "decompress_loop mb vw st (cs @ [c]) =
     (case decompress_loop mb vw st cs of Inl e \<Rightarrow> Inl e
      | Inr st' \<Rightarrow> decompress_step mb vw st' c)"
  by (induction cs arbitrary: st) (auto split: sum.splits)

lemma decompress_run_snoc:
  assumes "fst (decompress_run cs mb vw) = Inr D"
  shows "fst (decompress_run (cs @ [c]) mb vw) = decompress_step mb vw D c"
proof (cases cs)
  case Nil
  then show ?thesis using assms by (simp add: decompress_run_def)
next
  case (Cons k ks)
  then show ?thesis using assms
    by (auto simp: decompress_run_def decompress_loop_snoc split: option.splits)
qed

lemma parityI:
  assumes "\<And>s c. Trie_search t s = Some c \<longleftrightarrow> tbl (Some c) = Some s"
    and "tbl None = None"
  shows "trie_holds t s k \<longleftrightarrow> table_holds tbl s k"
  using assms by (cases k) (auto simp: trie_holds_def table_holds_def)

lemma initial_parity:
  "Trie_search initial_trie s = Some c \<longleftrightarrow> initial_table (Some c) = Some s"
proof
  assume "Trie_search initial_trie s = Some c"
  then obtain b where "s = [b]" "c = uint b"
    by (auto simp: search_initial_trie split: list.splits)
  then show "initial_table (Some c) = Some s"
    using uint_lt2p [of b] by (simp add: initial_table_eq)
next
  assume "initial_table (Some c) = Some s"
  then have c: "0 \<le> c" "c < 256" and s: "s = [word_of_int c]"
    by (auto simp: initial_table_eq split: if_splits)
  have "uint (word_of_int c :: byte) = c"
    using c by (simp add: uint_word_of_int)
  then show "Trie_search initial_trie s = Some c"
    by (simp add: search_initial_trie s)
qed

lemma initial_table_byte: "initial_table (Some (uint (b::byte))) = Some [b]"
  using initial_parity [of "[b]" "uint b"] by (simp add: search_initial_trie)

lemma initial_table_keys:
  "initial_table k \<noteq> None \<Longrightarrow> \<exists>c. k = Some c \<and> c < 256"
  by (cases k) (auto simp: initial_table_eq split: if_splits)

lemma synced_step:
  assumes S: "synced mb vw E D p"
  shows "\<exists>D'. synced mb vw (compress_step mb vw E b) D' (p @ [b])"
proof (cases "Trie_search (trie E) (current_bytes E @ [b]) = None")
  case False
  from S have L: "lockstep mb vw E D" by (simp add: synced_def)
  have "synced mb vw (compress_step mb vw E b) D (p @ [b])"
    unfolding synced_def using lockstep_hit [OF L False] S
    by (auto simp: synced_def compress_step_hit [OF False])
  then show ?thesis ..
next
  case True
  from S have L: "lockstep mb vw E D"
    and run: "fst (decompress_run (compressed_data E) mb vw) = Inr D"
    and out: "concat (decompressed_data D) @ current_bytes E = p"
    by (simp_all add: synced_def)
  from lockstep_miss [OF L True] obtain D'
    where D': "decompress_step mb vw D (Trie_search (trie E) (current_bytes E)) = Inr D'"
      and dd: "decompressed_data D' = decompressed_data D @ [current_bytes E]"
      and L': "lockstep mb vw (compress_step mb vw E b) D'"
    by blast
  have "synced mb vw (compress_step mb vw E b) D' (p @ [b])"
    unfolding synced_def compress_step_miss(1,2) [OF True]
    using L' decompress_run_snoc [OF run] D' dd out by simp
  then show ?thesis ..
qed

lemma synced_foldl:
  "synced mb vw E D p \<Longrightarrow> \<exists>D'. synced mb vw (foldl (compress_step mb vw) E bs) D' (p @ bs)"
proof (induction bs arbitrary: E D p)
  case Nil
  then show ?case by auto
next
  case (Cons b bs)
  from synced_step [OF Cons.prems] obtain D1
    where "synced mb vw (compress_step mb vw E b) D1 (p @ [b])" ..
  from Cons.IH [OF this] show ?case by simp
qed

lemma compress_loop_single:
  "compress_loop mb vw [b] = (compress_init mb vw)\<lparr>current_bytes := [b]\<rparr>"
  by (simp add: compress_loop_def compress_step_def search_initial_trie)

lemma compress_loop_append:
  "compress_loop mb vw (p @ q) = foldl (compress_step mb vw) (compress_loop mb vw p) q"
  by (simp add: compress_loop_def)

lemma compress_width_init:
  "compress_width ((compress_init mb vw)\<lparr>current_bytes := cb\<rparr>) =
     decompress_width (decompress_init mb vw cb')"
  by (simp add: compress_width_def decompress_width_def)

lemma synced_start:
  "synced mb vw (compress_loop mb vw [b, b2]) (decompress_init mb vw [b]) [b, b2]"
proof -
  let ?E1 = "(compress_init mb vw)\<lparr>current_bytes := [b]\<rparr>"
  let ?E2 = "compress_step mb vw ?E1 b2"
  let ?D = "decompress_init mb vw [b]"
  have E2: "compress_loop mb vw [b, b2] = ?E2"
    using compress_loop_append [of mb vw "[b]" "[b2]"] by (simp add: compress_loop_single)
  have miss: "Trie_search (trie ?E1) (current_bytes ?E1 @ [b2]) = None"
    by (simp add: search_initial_trie)
  note m = compress_step_miss [OF miss, of mb vw]
  have cd: "compressed_data ?E2 = [Some (uint b)]"
    using m(2) by (simp add: search_initial_trie)
  have L: "lockstep mb vw ?E2 ?D"
  proof (rule lockstepI)
    show "compress_width ?E2 = grow mb vw (decompress_width ?D)"
      using m(3) compress_width_init [where mb = mb and vw = vw and cb = "[b]" and cb' = "[b]"] by simp
    show "current_bytes ?E2 \<noteq> []" using m(1) by simp
    show "dec_current_bytes ?D \<noteq> []" by simp
    show s: "Trie_search (trie ?E2) [b'] \<noteq> None" for b'
      unfolding m(4) by (simp add: search_initial_trie)
    show "Trie_search (trie ?E2) (current_bytes ?E2) \<noteq> None"
      unfolding m(1) by (rule s)
    show "\<exists>c. k = Some c \<and> c < dec_next_code ?D" if "table ?D k \<noteq> None" for k
      using that initial_table_keys [of k] by simp
    show "Trie_search (trie ?E2) s = Some c \<longleftrightarrow>
        (table ?D (Some c) = Some s \<or>
         (dec_next_code ?D < dec_max_table_size ?D \<and> c = dec_next_code ?D \<and>
          s = dec_current_bytes ?D @ [hd (current_bytes ?E2)]))" for s c
    proof -
      have "initial_table (Some c') \<noteq> Some [b, b2]" for c'
        using initial_parity [of "[b, b2]" c'] by (simp add: search_initial_trie)
      then show ?thesis unfolding m(4) m(1)
        using initial_parity [of s c] by auto
    qed
  qed
  have run: "fst (decompress_run (compressed_data ?E2) mb vw) = Inr ?D"
    unfolding cd by (simp add: decompress_run_def initial_table_byte)
  show ?thesis unfolding E2 synced_def using L run m(1) by simp
qed

lemma synced_reach:
  "\<exists>D. synced mb vw (compress_loop mb vw (b # b2 # bs)) D (b # b2 # bs)"
proof -
  have "compress_loop mb vw (b # b2 # bs) =
          foldl (compress_step mb vw) (compress_loop mb vw [b, b2]) bs"
    using compress_loop_append [of mb vw "[b, b2]" bs] by simp
  then show ?thesis using synced_foldl [OF synced_start, of mb vw b b2 bs] by simp
qed

subsection \<open>Complete runs\<close>

lemma fst_lzw_decompress:
  "fst (decompress_run cs mb vw) = Inr D \<Longrightarrow>
   fst (lzw_decompress cs mb vw) = Inr (concat (decompressed_data D))"
  by (cases "decompress_run cs mb vw") (simp add: lzw_decompress_def)

lemma fst_lzw_compress:
  "fst (lzw_compress x mb vw) = compress_flush (compress_loop mb vw x)"
  by (simp add: lzw_compress_def Let_def)

lemma compress_flush_nonempty:
  "current_bytes E \<noteq> [] \<Longrightarrow>
   compress_flush E = compressed_data E @ [Trie_search (trie E) (current_bytes E)]"
  by (simp add: compress_flush_def)

lemma decompress_run_single:
  "fst (decompress_run [Some (uint (b::byte))] mb vw) = Inr (decompress_init mb vw [b])"
  by (simp add: decompress_run_def initial_table_byte)

lemma initial_table_None [simp]: "initial_table None = None"
  by (simp add: initial_table_eq)

lemma run_complete:
  assumes "x \<noteq> []"
  shows "\<exists>D. fst (decompress_run (fst (lzw_compress x mb vw)) mb vw) = Inr D \<and>
           concat (decompressed_data D) = x \<and>
           (\<forall>s k. trie_holds (trie (compress_loop mb vw x)) s k \<longleftrightarrow> table_holds (table D) s k)"
proof -
  consider b where "x = [b]" | b b2 bs where "x = b # b2 # bs"
    using assms by (cases x; cases "tl x") auto
  then show ?thesis
  proof cases
    case 1
    have "fst (lzw_compress x mb vw) = [Some (uint b)]"
      unfolding fst_lzw_compress 1 compress_loop_single
      by (simp add: compress_flush_def search_initial_trie)
    moreover have "trie_holds (trie (compress_loop mb vw x)) s k \<longleftrightarrow>
                   table_holds (table (decompress_init mb vw [b])) s k" for s k
      unfolding 1 compress_loop_single
      by (rule parityI) (simp_all add: initial_parity)
    ultimately show ?thesis using decompress_run_single [of b mb vw] 1 by auto
  next
    case 2
    let ?E = "compress_loop mb vw x"
    from synced_reach [of mb vw b b2 bs] obtain D where S: "synced mb vw ?E D x"
      unfolding 2 by blast
    then have L: "lockstep mb vw ?E D"
      and run: "fst (decompress_run (compressed_data ?E) mb vw) = Inr D"
      and out: "concat (decompressed_data D) @ current_bytes ?E = x"
      by (simp_all add: synced_def)
    from lockstep_flush [OF L] obtain D'
      where D': "decompress_step mb vw D (Trie_search (trie ?E) (current_bytes ?E)) = Inr D'"
        and dd: "decompressed_data D' = decompressed_data D @ [current_bytes ?E]"
        and par: "\<And>s c. Trie_search (trie ?E) s = Some c \<longleftrightarrow> table D' (Some c) = Some s"
        and none: "table D' None = None"
      by blast
    have "fst (decompress_run (fst (lzw_compress x mb vw)) mb vw) = Inr D'"
      unfolding fst_lzw_compress compress_flush_nonempty [OF lockstepD(2) [OF L]]
      using decompress_run_snoc [OF run] D' by simp
    moreover have "concat (decompressed_data D') = x" using dd out by simp
    moreover have "trie_holds (trie ?E) s k \<longleftrightarrow> table_holds (table D') s k" for s k
      by (rule parityI [OF par none])
    ultimately show ?thesis by blast
  qed
qed

lemma compressed_data_step:
  "\<exists>X. compressed_data (compress_step mb vw E b) = compressed_data E @ X"
  by (cases "Trie_search (trie E) (current_bytes E @ [b]) = None")
     (simp_all add: compress_step_miss(2) compress_step_hit)

lemma compressed_data_foldl:
  "\<exists>X. compressed_data (foldl (compress_step mb vw) E q) = compressed_data E @ X"
proof (induction q arbitrary: E)
  case Nil
  then show ?case by simp
next
  case (Cons b q)
  from compressed_data_step [of mb vw E b] obtain X1
    where 1: "compressed_data (compress_step mb vw E b) = compressed_data E @ X1" ..
  from Cons [of "compress_step mb vw E b"] obtain X2
    where "compressed_data (foldl (compress_step mb vw) (compress_step mb vw E b) q) =
             compressed_data (compress_step mb vw E b) @ X2" ..
  then show ?case using 1 by simp
qed

lemma compress_flush_foldl:
  "\<exists>X. compress_flush (foldl (compress_step mb vw) E q) = compressed_data E @ X"
proof -
  from compressed_data_foldl [of mb vw E q] obtain X
    where "compressed_data (foldl (compress_step mb vw) E q) = compressed_data E @ X" ..
  then show ?thesis by (simp add: compress_flush_def)
qed

lemma next_token:
  assumes "lockstep mb vw E D"
  shows "\<exists>c X D'. compress_flush (foldl (compress_step mb vw) E q) = compressed_data E @ c # X \<and>
           decompress_step mb vw D c = Inr D' \<and>
           (\<forall>s k. trie_holds (trie E) s k \<longleftrightarrow> table_holds (table D') s k)"
  using assms
proof (induction q arbitrary: E)
  case Nil
  from lockstep_flush [OF Nil] obtain D'
    where "decompress_step mb vw D (Trie_search (trie E) (current_bytes E)) = Inr D'"
      and par: "\<And>s c. Trie_search (trie E) s = Some c \<longleftrightarrow> table D' (Some c) = Some s"
      and none: "table D' None = None"
    by blast
  moreover have "trie_holds (trie E) s k \<longleftrightarrow> table_holds (table D') s k" for s k
    by (rule parityI [OF par none])
  ultimately show ?case
    using compress_flush_nonempty [OF lockstepD(2) [OF Nil]] by auto
next
  case (Cons b q)
  show ?case
  proof (cases "Trie_search (trie E) (current_bytes E @ [b]) = None")
    case False
    from Cons.IH [OF lockstep_hit [OF Cons.prems False]]
    show ?thesis by (simp add: compress_step_hit [OF False])
  next
    case True
    let ?c = "Trie_search (trie E) (current_bytes E)"
    from lockstep_flush [OF Cons.prems] obtain D'
      where D': "decompress_step mb vw D ?c = Inr D'"
        and par: "\<And>s c. Trie_search (trie E) s = Some c \<longleftrightarrow> table D' (Some c) = Some s"
        and none: "table D' None = None"
      by blast
    have par': "trie_holds (trie E) s k \<longleftrightarrow> table_holds (table D') s k" for s k
      by (rule parityI [OF par none])
    from compress_flush_foldl [of mb vw "compress_step mb vw E b" q] obtain X
      where "compress_flush (foldl (compress_step mb vw) E (b # q)) =
               compressed_data E @ ?c # X"
      by (auto simp: compress_step_miss(2) [OF True])
    with D' par' show ?thesis by blast
  qed
qed

lemma first_code:
  "\<exists>X. fst (lzw_compress (b # r) mb vw) = Some (uint b) # X"
proof (cases r)
  case Nil
  then show ?thesis unfolding fst_lzw_compress Nil compress_loop_single
    by (simp add: compress_flush_def search_initial_trie)
next
  case (Cons b2 bs)
  have cd: "compressed_data (compress_loop mb vw [b, b2]) = [Some (uint b)]"
    using compress_loop_append [of mb vw "[b]" "[b2]"]
    by (simp add: compress_loop_single compress_step_def search_initial_trie Let_def
          Trie_get_next_code_def)
  have "compress_loop mb vw (b # r) = foldl (compress_step mb vw) (compress_loop mb vw [b, b2]) bs"
    using compress_loop_append [of mb vw "[b, b2]" bs] Cons by simp
  then show ?thesis unfolding fst_lzw_compress
    using compress_flush_foldl [of mb vw "compress_loop mb vw [b, b2]" bs] cd by auto
qed

subsection \<open>Invalid codes and code widths\<close>

lemma decompress_step_invalid:
  "table st c = None \<Longrightarrow> c \<noteq> Some (dec_next_code st) \<Longrightarrow>
   decompress_step mb vw st c = Inl ValueError"
  by (simp add: decompress_step_def)

lemma decompress_loop_invalid:
  assumes "decompress_loop mb vw st cs = Inr st'"
    and "table st' c = None" and "c \<noteq> Some (dec_next_code st')"
  shows "decompress_loop mb vw st (cs @ c # rest) = Inl ValueError"
  using assms
proof (induction cs arbitrary: st)
  case Nil
  then show ?case by (simp add: decompress_step_invalid)
next
  case (Cons a cs)
  then show ?case by (auto split: sum.splits)
qed

lemma grow_width:
  assumes "grow mb vw (nc, ccs, mts) = (nc', ccs', mts')"
  shows "ccs' = ccs \<or> (vw \<and> ccs < mb \<and> ccs' = Suc ccs)"
  using assms by (simp add: grow_def Let_def split: if_splits)

lemma compress_step_width:
  "current_code_size (compress_step mb vw st b) = current_code_size st \<or>
   (vw \<and> current_code_size st < mb \<and>
    current_code_size (compress_step mb vw st b) = Suc (current_code_size st))"
proof (cases "Trie_search (trie st) (current_bytes st @ [b]) = None")
  case False
  then show ?thesis by (simp add: compress_step_hit)
next
  case True
  from compress_step_miss(3) [OF True, of mb vw] show ?thesis
    unfolding compress_width_def by (rule grow_width [OF sym])
qed

lemma decompress_step_width:
  assumes "decompress_step mb vw st c = Inr st'"
  shows "dec_current_code_size st' = dec_current_code_size st \<or>
   (vw \<and> dec_current_code_size st < mb \<and>
    dec_current_code_size st' = Suc (dec_current_code_size st))"
proof -
  from assms obtain e where "table st c = Some e \<or> (table st c = None \<and>
      c = Some (dec_next_code st) \<and> e = dec_current_bytes st @ take 1 (dec_current_bytes st))"
    by (cases "table st c") (auto simp: decompress_step_def split: if_splits)
  from decompress_step_entry [OF this, of mb vw] assms
  have "decompress_width st' = grow mb vw (decompress_width st)" by auto
  then show ?thesis unfolding decompress_width_def by (rule grow_width [OF sym])
qed

lemma width_step_bounds:
  fixes a a' w :: nat
  assumes "a' = a \<or> (vw \<and> a < mb \<and> a' = Suc a)"
    and "a' \<le> w \<and> (a' \<le> mb \<longrightarrow> w \<le> mb) \<and> (\<not> vw \<longrightarrow> w = a')"
  shows "a \<le> w \<and> (a \<le> mb \<longrightarrow> w \<le> mb) \<and> (\<not> vw \<longrightarrow> w = a)"
  using assms by (elim disjE conjE) simp_all

lemma compress_states_widths:
  "sorted (map current_code_size (compress_states mb vw st bs)) \<and>
   (\<forall>w \<in> set (map current_code_size (compress_states mb vw st bs)).
      current_code_size st \<le> w \<and> (current_code_size st \<le> mb \<longrightarrow> w \<le> mb) \<and>
      (\<not> vw \<longrightarrow> w = current_code_size st))"
proof (induction bs arbitrary: st)
  case Nil
  then show ?case by simp
next
  case (Cons b bs)
  let ?ws = "map current_code_size (compress_states mb vw (compress_step mb vw st b) bs)"
  note IH = Cons [of "compress_step mb vw st b"]
  have tail: "current_code_size st \<le> w \<and> (current_code_size st \<le> mb \<longrightarrow> w \<le> mb) \<and>
      (\<not> vw \<longrightarrow> w = current_code_size st)" if "w \<in> set ?ws" for w
    using width_step_bounds [OF compress_step_width [of mb vw st b]] IH that by blast
  have "sorted (current_code_size st # ?ws)" using IH tail by (simp only: sorted_simps) blast
  moreover have "\<forall>w \<in> set (current_code_size st # ?ws).
      current_code_size st \<le> w \<and> (current_code_size st \<le> mb \<longrightarrow> w \<le> mb) \<and>
      (\<not> vw \<longrightarrow> w = current_code_size st)"
    using tail by (simp only: set_simps ball_simps) simp
  ultimately show ?case by simp
qed

lemma decompress_states_widths:
  "sorted (map dec_current_code_size (decompress_states mb vw st cs)) \<and>
   (\<forall>w \<in> set (map dec_current_code_size (decompress_states mb vw st cs)).
      dec_current_code_size st \<le> w \<and> (dec_current_code_size st \<le> mb \<longrightarrow> w \<le> mb) \<and>
      (\<not> vw \<longrightarrow> w = dec_current_code_size st))"
proof (induction cs arbitrary: st)
  case Nil
  then show ?case by simp
next
  case (Cons c cs)
  show ?case
  proof (cases "decompress_step mb vw st c")
    case (Inl e)
    then show ?thesis by simp
  next
    case (Inr st')
    let ?ws = "map dec_current_code_size (decompress_states mb vw st' cs)"
    note IH = Cons [of st']
    have tail: "dec_current_code_size st \<le> w \<and> (dec_current_code_size st \<le> mb \<longrightarrow> w \<le> mb) \<and>
        (\<not> vw \<longrightarrow> w = dec_current_code_size st)" if "w \<in> set ?ws" for w
      using width_step_bounds [OF decompress_step_width [OF Inr]] IH that by blast
    have "sorted (dec_current_code_size st # ?ws)"
      using IH tail by (simp only: sorted_simps) blast
    moreover have "\<forall>w \<in> set (dec_current_code_size st # ?ws).
        dec_current_code_size st \<le> w \<and> (dec_current_code_size st \<le> mb \<longrightarrow> w \<le> mb) \<and>
        (\<not> vw \<longrightarrow> w = dec_current_code_size st)"
      using tail by (simp only: set_simps ball_simps) simp
    ultimately show ?thesis using Inr by simp
  qed
qed

lemma hd_compress_states [simp]: "hd (compress_states mb vw st bs) = st"
  by (cases bs) simp_all

lemma hd_decompress_states [simp]: "hd (decompress_states mb vw st cs) = st"
  by (cases cs) simp_all

lemma compress_states_nonempty [simp]: "compress_states mb vw st bs \<noteq> []"
  by (cases bs) simp_all

lemma decompress_states_nonempty [simp]: "decompress_states mb vw st cs \<noteq> []"
  by (cases cs) simp_all

lemma last_compress_states:
  "last (compress_states mb vw st bs) = foldl (compress_step mb vw) st bs"
  by (induction bs arbitrary: st) simp_all

lemma last_decompress_states:
  "decompress_loop mb vw st cs = Inr st' \<Longrightarrow> last (decompress_states mb vw st cs) = st'"
  by (induction cs arbitrary: st) (auto split: sum.splits)

subsection \<open>What the encoder emits\<close>

lemma compress_loop_snoc:
  "compress_loop mb vw (p @ [b]) = compress_step mb vw (compress_loop mb vw p) b"
  by (simp add: compress_loop_def)

lemma compress_step_miss_nonempty:
  assumes "\<And>b. Trie_search (trie E) [b] \<noteq> None"
    and "Trie_search (trie E) (current_bytes E @ [b]) = None"
  shows "current_bytes E \<noteq> []"
proof
  assume "current_bytes E = []"
  with assms(2) have "Trie_search (trie E) [b] = None" by simp
  with assms(1) [of b] show False by blast
qed

lemma compress_inv_step:
  assumes s: "\<And>b. Trie_search (trie E) [b] = Some (uint b)"
    and c: "current_bytes E \<noteq> [] \<longrightarrow> Trie_search (trie E) (current_bytes E) \<noteq> None"
    and d: "None \<notin> set (compressed_data E)"
  shows "(\<forall>b'. Trie_search (trie (compress_step mb vw E b)) [b'] = Some (uint b')) \<and>
         (current_bytes (compress_step mb vw E b) \<noteq> [] \<longrightarrow>
            Trie_search (trie (compress_step mb vw E b)) (current_bytes (compress_step mb vw E b))
              \<noteq> None) \<and>
         None \<notin> set (compressed_data (compress_step mb vw E b))"
proof (cases "Trie_search (trie E) (current_bytes E @ [b]) = None")
  case False
  then show ?thesis using s d by (simp add: compress_step_hit)
next
  case True
  have ne: "current_bytes E \<noteq> []"
    by (rule compress_step_miss_nonempty [OF _ True]) (simp add: s)
  have neq: "[b'] \<noteq> current_bytes E @ [b]" for b'
    using True s [of b'] by auto
  have 1: "Trie_search (trie (compress_step mb vw E b)) [b'] = Some (uint b')" for b'
  proof -
    have "\<not> (next_code (trie E) < max_table_size E \<and> [b'] = current_bytes E @ [b])"
      using neq [of b'] by blast
    then show ?thesis unfolding compress_step_miss(4) [OF True] by (simp only: if_False s)
  qed
  show ?thesis
    using 1 c d ne unfolding compress_step_miss(1,2) [OF True] by auto
qed

lemma compress_inv_loop:
  "(\<forall>b. Trie_search (trie (compress_loop mb vw p)) [b] = Some (uint b)) \<and>
   (current_bytes (compress_loop mb vw p) \<noteq> [] \<longrightarrow>
      Trie_search (trie (compress_loop mb vw p)) (current_bytes (compress_loop mb vw p)) \<noteq> None) \<and>
   None \<notin> set (compressed_data (compress_loop mb vw p))"
proof (induction p rule: rev_induct)
  case Nil
  then show ?case by (simp add: compress_loop_def search_initial_trie)
next
  case (snoc b p)
  then show ?case unfolding compress_loop_snoc
    by (intro compress_inv_step) simp_all
qed

subsection \<open>Where the codes come from\<close>

lemma assigned_inI:
  assumes "x = p @ b # q"
    and "Trie_search (trie (compress_loop mb vw p)) (current_bytes (compress_loop mb vw p) @ [b]) = None"
    and "next_code (trie (compress_loop mb vw p)) < max_table_size (compress_loop mb vw p)"
    and "c = next_code (trie (compress_loop mb vw p))"
    and "c < 2 ^ current_code_size (compress_loop mb vw p)"
  shows "assigned_in mb vw x c"
  unfolding assigned_in_def Let_def
  apply (rule exI [of _ p])
  apply (rule exI [of _ b])
  apply (rule exI [of _ q])
  using assms apply simp
  done

lemma assigned_inE:
  assumes "assigned_in mb vw x c"
  obtains p b q where "x = p @ b # q"
    and "Trie_search (trie (compress_loop mb vw p)) (current_bytes (compress_loop mb vw p) @ [b]) = None"
    and "next_code (trie (compress_loop mb vw p)) < max_table_size (compress_loop mb vw p)"
    and "c = next_code (trie (compress_loop mb vw p))"
    and "c < 2 ^ current_code_size (compress_loop mb vw p)"
  using assms unfolding assigned_in_def Let_def by blast

lemma assigned_in_append:
  assumes "assigned_in mb vw x c"
  shows "assigned_in mb vw (x @ r) c"
proof -
  from assms obtain p b q where x: "x = p @ b # q"
    and a: "Trie_search (trie (compress_loop mb vw p)) (current_bytes (compress_loop mb vw p) @ [b]) = None"
     "next_code (trie (compress_loop mb vw p)) < max_table_size (compress_loop mb vw p)"
     "c = next_code (trie (compress_loop mb vw p))"
     "c < 2 ^ current_code_size (compress_loop mb vw p)"
    by (rule assigned_inE)
  have "x @ r = p @ b # (q @ r)" using x by simp
  then show ?thesis using a by (rule assigned_inI)
qed

lemma assigned_in_last:
  assumes "Trie_search (trie (compress_loop mb vw p)) (current_bytes (compress_loop mb vw p) @ [b]) = None"
    and "next_code (trie (compress_loop mb vw p)) < max_table_size (compress_loop mb vw p)"
    and "max_table_size (compress_loop mb vw p) = 2 ^ current_code_size (compress_loop mb vw p)"
  shows "assigned_in mb vw (p @ [b]) (next_code (trie (compress_loop mb vw p)))"
proof (rule assigned_inI [where p = p and b = b and q = "[]"])
  show "next_code (trie (compress_loop mb vw p)) < 2 ^ current_code_size (compress_loop mb vw p)"
    using assms(2) unfolding assms(3) .
qed (use assms in simp_all)

lemma compress_step_ceiling:
  assumes "max_table_size E = 2 ^ current_code_size E" and "256 \<le> next_code (trie E)"
  shows "max_table_size (compress_step mb vw E b) = 2 ^ current_code_size (compress_step mb vw E b) \<and>
         256 \<le> next_code (trie (compress_step mb vw E b))"
proof (cases "Trie_search (trie E) (current_bytes E @ [b]) = None")
  case False
  then show ?thesis using assms by (simp add: compress_step_hit)
next
  case True
  let ?E' = "compress_step mb vw E b"
  have "(next_code (trie ?E'), current_code_size ?E', max_table_size ?E') =
        grow mb vw (next_code (trie E), current_code_size E, max_table_size E)"
    using compress_step_miss(3) [OF True, of mb vw] by (simp only: compress_width_def)
  then show ?thesis using assms
    by (simp only: grow_def Let_def split: if_splits prod.splits) auto
qed

lemma compress_loop_ceiling:
  "max_table_size (compress_loop mb vw p) = 2 ^ current_code_size (compress_loop mb vw p) \<and>
   256 \<le> next_code (trie (compress_loop mb vw p))"
proof (induction p rule: rev_induct)
  case Nil
  then show ?case by (simp add: compress_loop_def)
next
  case (snoc b p)
  then show ?case unfolding compress_loop_snoc by (intro compress_step_ceiling) simp_all
qed

lemma trie_codes:
  "Trie_search (trie (compress_loop mb vw p)) s = Some c \<Longrightarrow>
   (\<exists>b. s = [b] \<and> c = uint b) \<or> (256 \<le> c \<and> assigned_in mb vw p c)"
proof (induction p arbitrary: s c rule: rev_induct)
  case Nil
  then show ?case by (auto simp: compress_loop_def search_initial_trie split: list.splits)
next
  case (snoc b p)
  let ?E = "compress_loop mb vw p"
  show ?case
  proof (cases "Trie_search (trie ?E) (current_bytes ?E @ [b]) = None")
    case False
    with snoc.prems have "Trie_search (trie ?E) s = Some c"
      by (simp add: compress_loop_snoc compress_step_hit)
    from snoc.IH [OF this] show ?thesis using assigned_in_append by blast
  next
    case True
    note ceil = compress_loop_ceiling [of mb vw p]
    show ?thesis
    proof (cases "next_code (trie ?E) < max_table_size ?E \<and> s = current_bytes ?E @ [b]")
      case new: True
      with snoc.prems have "c = next_code (trie ?E)"
        unfolding compress_loop_snoc compress_step_miss(4) [OF True] by simp
      then show ?thesis using assigned_in_last [OF True] new ceil by simp
    next
      case old: False
      with snoc.prems have "Trie_search (trie ?E) s = Some c"
        unfolding compress_loop_snoc compress_step_miss(4) [OF True] by (simp only: if_False)
      from snoc.IH [OF this] show ?thesis using assigned_in_append by blast
    qed
  qed
qed

lemma emitted_codes:
  "k \<in> set (compressed_data (compress_loop mb vw p)) \<Longrightarrow>
   \<exists>c. k = Some c \<and> ((0 \<le> c \<and> c < 256) \<or> (256 \<le> c \<and> assigned_in mb vw p c))"
proof (induction p arbitrary: k rule: rev_induct)
  case Nil
  then show ?case by (simp add: compress_loop_def)
next
  case (snoc b p)
  let ?E = "compress_loop mb vw p"
  show ?case
  proof (cases "Trie_search (trie ?E) (current_bytes ?E @ [b]) = None")
    case False
    with snoc.prems have "k \<in> set (compressed_data ?E)"
      by (simp add: compress_loop_snoc compress_step_hit)
    from snoc.IH [OF this] show ?thesis using assigned_in_append by blast
  next
    case True
    from snoc.prems consider "k \<in> set (compressed_data ?E)"
      | "k = Trie_search (trie ?E) (current_bytes ?E)"
      unfolding compress_loop_snoc compress_step_miss(2) [OF True] by auto
    then show ?thesis
    proof cases
      case 1
      from snoc.IH [OF this] show ?thesis using assigned_in_append by blast
    next
      case 2
      note inv = compress_inv_loop [of mb vw p]
      have "current_bytes ?E \<noteq> []"
        by (rule compress_step_miss_nonempty [OF _ True]) (simp add: inv)
      with inv 2 obtain c where c: "Trie_search (trie ?E) (current_bytes ?E) = Some c" "k = Some c"
        by auto
      from trie_codes [OF c(1)] show ?thesis
      proof
        assume "\<exists>b. current_bytes ?E = [b] \<and> c = uint b"
        then obtain b' where "c = uint (b'::byte)" by blast
        then have "0 \<le> c \<and> c < 256" using uint_lt2p [of b'] by simp
        with c(2) show ?thesis by blast
      next
        assume "256 \<le> c \<and> assigned_in mb vw p c"
        with c(2) show ?thesis using assigned_in_append by blast
      qed
    qed
  qed
qed

lemma returned_codes:
  assumes "k \<in> set (fst (lzw_compress x mb vw))"
  shows "\<exists>c. k = Some c \<and> ((0 \<le> c \<and> c < 256) \<or> (256 \<le> c \<and> assigned_in mb vw x c))"
proof -
  let ?E = "compress_loop mb vw x"
  from assms consider "k \<in> set (compressed_data ?E)"
    | "current_bytes ?E \<noteq> []" "k = Trie_search (trie ?E) (current_bytes ?E)"
    unfolding fst_lzw_compress compress_flush_def by (auto split: if_splits)
  then show ?thesis
  proof cases
    case 1
    then show ?thesis by (rule emitted_codes)
  next
    case 2
    with compress_inv_loop [of mb vw x] obtain c
      where c: "Trie_search (trie ?E) (current_bytes ?E) = Some c" "k = Some c"
      by auto
    from trie_codes [OF c(1)] show ?thesis
    proof
      assume "\<exists>b. current_bytes ?E = [b] \<and> c = uint b"
      then obtain b' where "c = uint (b'::byte)" by blast
      then have "0 \<le> c \<and> c < 256" using uint_lt2p [of b'] by simp
      with c(2) show ?thesis by blast
    next
      assume "256 \<le> c \<and> assigned_in mb vw x c"
      with c(2) show ?thesis by blast
    qed
  qed
qed

lemma trie_single_codes:
  "Trie_search (trie (compress_loop mb vw p)) s = Some (uint (b::byte)) \<longleftrightarrow> s = [b]"
proof
  assume "Trie_search (trie (compress_loop mb vw p)) s = Some (uint b)"
  from trie_codes [OF this] show "s = [b]"
    using uint_lt2p [of b] by (auto simp: word_uint_eq_iff)
next
  assume "s = [b]"
  then show "Trie_search (trie (compress_loop mb vw p)) s = Some (uint b)"
    using compress_inv_loop [of mb vw p] by simp
qed

lemma grow_next_code:
  assumes "grow mb vw (nc, ccs, mts) = (nc', ccs', mts')"
  shows "nc \<le> nc'"
  using assms by (simp add: grow_def Let_def split: if_splits)

lemma decompress_step_InrD:
  assumes "decompress_step mb vw st c = Inr st'"
  shows "decompress_width st' = grow mb vw (decompress_width st)"
    and "\<exists>e. table st' = (if dec_next_code st < dec_max_table_size st
                       then (table st)(Some (dec_next_code st) \<mapsto> dec_current_bytes st @ take 1 e)
                       else table st)"
proof -
  from assms obtain e where "table st c = Some e \<or> (table st c = None \<and>
      c = Some (dec_next_code st) \<and> e = dec_current_bytes st @ take 1 (dec_current_bytes st))"
    by (cases "table st c") (auto simp: decompress_step_def split: if_splits)
  from decompress_step_entry [OF this, of mb vw] assms
  show "decompress_width st' = grow mb vw (decompress_width st)"
    and "\<exists>e. table st' = (if dec_next_code st < dec_max_table_size st
                       then (table st)(Some (dec_next_code st) \<mapsto> dec_current_bytes st @ take 1 e)
                       else table st)"
    by auto
qed

lemma decompress_step_singles:
  assumes "decompress_step mb vw st c = Inr st'"
    and "256 \<le> dec_next_code st"
    and "\<And>b. table st (Some (uint (b::byte))) = Some [b]"
  shows "256 \<le> dec_next_code st' \<and> (\<forall>b. table st' (Some (uint (b::byte))) = Some [b])"
proof -
  have ne: "uint b \<noteq> dec_next_code st" for b :: byte
    using uint_lt2p [of b] assms(2) by simp
  from decompress_step_InrD(1) [OF assms(1)]
  have "dec_next_code st \<le> dec_next_code st'"
    unfolding decompress_width_def by (rule grow_next_code [OF sym])
  moreover from decompress_step_InrD(2) [OF assms(1)] obtain e
    where "table st' = (if dec_next_code st < dec_max_table_size st
                       then (table st)(Some (dec_next_code st) \<mapsto> dec_current_bytes st @ take 1 e)
                       else table st)" ..
  then have "table st' (Some (uint b)) = Some [b]" for b :: byte
    using ne [of b] assms(3) [of b] by simp
  ultimately show ?thesis using assms(2) by simp
qed

lemma decompress_loop_singles:
  assumes "decompress_loop mb vw st cs = Inr st'"
    and "256 \<le> dec_next_code st"
    and "\<And>b. table st (Some (uint (b::byte))) = Some [b]"
  shows "table st' (Some (uint (b::byte))) = Some [b]"
  using assms
proof (induction cs arbitrary: st)
  case Nil
  then show ?case by simp
next
  case (Cons c cs)
  from Cons.prems(1) obtain st1 where 1: "decompress_step mb vw st c = Inr st1"
    and 2: "decompress_loop mb vw st1 cs = Inr st'"
    by (auto split: sum.splits)
  from decompress_step_singles [OF 1 Cons.prems(2)] Cons.prems(3)
  have "256 \<le> dec_next_code st1" "\<And>b. table st1 (Some (uint (b::byte))) = Some [b]"
    by blast+
  from Cons.IH [OF 2 this] show ?case .
qed

lemma decompress_run_singles:
  assumes "fst (decompress_run cs mb vw) = Inr D"
  shows "table D (Some (uint (b::byte))) = Some [b]"
proof (cases cs)
  case Nil
  with assms show ?thesis by (simp add: decompress_run_def)
next
  case (Cons k ks)
  with assms obtain cb
    where "decompress_loop mb vw (decompress_init mb vw cb) ks = Inr D"
    by (auto simp: decompress_run_def split: option.splits)
  then show ?thesis
    by (rule decompress_loop_singles) (simp_all add: initial_table_byte)
qed

section \<open>Verified statements\<close>

text \<open>
  C5: for every \<^verbatim>\<open>max_bits\<close> and \<^verbatim>\<open>variable_bits\<close>, decompressing the empty code list
  fails, and in one way only: with the exception that \<^verbatim>\<open>pop(0)\<close> raises on an empty list
  (the empty-input decoding error). The list stays empty.
\<close>

theorem decompress_empty_fails:
  "lzw_decompress [] max_bits variable_bits = (Inl IndexError, [])"
  by (simp add: lzw_decompress_def decompress_run_def)

text \<open>
  C6: for every \<^verbatim>\<open>max_bits\<close> and \<^verbatim>\<open>variable_bits\<close>, compressing the empty byte sequence
  returns the empty code list.
\<close>

theorem compress_empty:
  "fst (lzw_compress [] max_bits variable_bits) = []"
  by (simp add: lzw_compress_def compress_loop_def compress_flush_def)

text \<open>
  C9: a call of \<^verbatim>\<open>lzw_decompress\<close> on a non-empty list changes the caller's list: after the
  call it is the list without its first element, one element shorter, whatever the outcome
  of the decoding.
\<close>

theorem decompress_pops_first:
  assumes "compressed \<noteq> []"
  shows "snd (lzw_decompress compressed max_bits variable_bits) = tl compressed \<and>
         Suc (length (snd (lzw_decompress compressed max_bits variable_bits))) = length compressed \<and>
         snd (lzw_decompress compressed max_bits variable_bits) \<noteq> compressed"
  using assms by (cases compressed) (simp_all add: snd_lzw_decompress snd_decompress_run)

theorem decompress_pops_first_witness:
  "[Some 65, Some 66] \<noteq> ([] :: code list) \<and>
   snd (lzw_decompress [Some 65, Some 66] 12 False) = [Some 66] \<and>
   Suc (length (snd (lzw_decompress [Some 65, Some 66] 12 False))) = 2"
  using decompress_pops_first [of "[Some 65, Some 66]" 12 False] by simp

text \<open>
  C1, as stated, at the empty input: the encoder returns the empty code list, on which the
  decoder raises instead of returning the empty byte sequence.
\<close>

theorem roundtrip_empty_counterexample:
  "fst (lzw_decompress (fst (lzw_compress [] 12 False)) 12 False) \<noteq> Inr []"
  by (simp add: fst_lzw_compress compress_loop_def compress_flush_def lzw_decompress_def
        decompress_run_def)

text \<open>
  C1, amended: for every non-empty byte sequence and every \<^verbatim>\<open>max_bits\<close> and
  \<^verbatim>\<open>variable_bits\<close>, decompressing the codes that \<^verbatim>\<open>lzw_compress\<close> returns, with the same
  parameters, returns the byte sequence. The witness is the run on
  \<^verbatim>\<open>b"TOBEORNOTTOBEORTOBEORNOT"\<close> with 12 bits and fixed width.
\<close>

theorem roundtrip:
  assumes "input_bytes \<noteq> []"
  shows "fst (lzw_decompress (fst (lzw_compress input_bytes max_bits variable_bits))
           max_bits variable_bits) = Inr input_bytes"
proof -
  from run_complete [OF assms, of max_bits variable_bits] obtain D
    where "fst (decompress_run (fst (lzw_compress input_bytes max_bits variable_bits))
             max_bits variable_bits) = Inr D"
      and "concat (decompressed_data D) = input_bytes" by blast
  then show ?thesis using fst_lzw_decompress by simp
qed

theorem roundtrip_witness:
  "[0x54, 0x4F, 0x42, 0x45, 0x4F, 0x52, 0x4E, 0x4F, 0x54, 0x54, 0x4F, 0x42, 0x45, 0x4F, 0x52,
    0x54, 0x4F, 0x42, 0x45, 0x4F, 0x52, 0x4E, 0x4F, 0x54] \<noteq> ([] :: byte list) \<and>
   fst (lzw_decompress (fst (lzw_compress
     [0x54, 0x4F, 0x42, 0x45, 0x4F, 0x52, 0x4E, 0x4F, 0x54, 0x54, 0x4F, 0x42, 0x45, 0x4F, 0x52,
      0x54, 0x4F, 0x42, 0x45, 0x4F, 0x52, 0x4E, 0x4F, 0x54] 12 False)) 12 False) =
   Inr [0x54, 0x4F, 0x42, 0x45, 0x4F, 0x52, 0x4E, 0x4F, 0x54, 0x54, 0x4F, 0x42, 0x45, 0x4F, 0x52,
        0x54, 0x4F, 0x42, 0x45, 0x4F, 0x52, 0x4E, 0x4F, 0x54] \<and>
   length [0x54, 0x4F, 0x42, 0x45, 0x4F, 0x52, 0x4E, 0x4F, 0x54, 0x54, 0x4F, 0x42, 0x45, 0x4F, 0x52,
        0x54, 0x4F, 0x42, 0x45, 0x4F, 0x52, 0x4E, 0x4F, 0x54 :: byte] = 24"
  using roundtrip [of "[0x54, 0x4F, 0x42, 0x45, 0x4F, 0x52, 0x4E, 0x4F, 0x54, 0x54, 0x4F, 0x42,
      0x45, 0x4F, 0x52, 0x54, 0x4F, 0x42, 0x45, 0x4F, 0x52, 0x4E, 0x4F, 0x54]" 12 False]
  by simp

text \<open>
  C2: in the decoding loop, a code that is not a key of the table and equals \<^verbatim>\<open>next_code\<close>
  is decoded to the previous sequence followed by its own first byte, which is appended to
  the output and becomes the previous sequence; and a run of \<open>n > 0\<close> copies of one byte
  is recovered by compressing and decompressing it (the witness takes 500 copies of
  \<^verbatim>\<open>0x41\<close>).
\<close>

theorem forward_reference:
  "(table st c = None \<and> c = Some (dec_next_code st) \<longrightarrow>
      (\<exists>st'. decompress_step max_bits variable_bits st c = Inr st' \<and>
         decompressed_data st' =
           decompressed_data st @ [dec_current_bytes st @ take 1 (dec_current_bytes st)] \<and>
         dec_current_bytes st' = dec_current_bytes st @ take 1 (dec_current_bytes st))) \<and>
   (0 < n \<longrightarrow>
      fst (lzw_decompress (fst (lzw_compress (replicate n b) max_bits variable_bits))
        max_bits variable_bits) = Inr (replicate n b))"
proof (intro conjI impI)
  assume "table st c = None \<and> c = Some (dec_next_code st)"
  then have "table st c = Some (dec_current_bytes st @ take 1 (dec_current_bytes st)) \<or>
     (table st c = None \<and> c = Some (dec_next_code st) \<and>
      dec_current_bytes st @ take 1 (dec_current_bytes st) =
        dec_current_bytes st @ take 1 (dec_current_bytes st))" by blast
  from decompress_step_entry [OF this, of max_bits variable_bits]
  show "\<exists>st'. decompress_step max_bits variable_bits st c = Inr st' \<and>
         decompressed_data st' =
           decompressed_data st @ [dec_current_bytes st @ take 1 (dec_current_bytes st)] \<and>
         dec_current_bytes st' = dec_current_bytes st @ take 1 (dec_current_bytes st)"
    by blast
next
  assume "0 < n"
  then have "replicate n b \<noteq> []" by simp
  from run_complete [OF this, of max_bits variable_bits] obtain D
    where "fst (decompress_run (fst (lzw_compress (replicate n b) max_bits variable_bits))
             max_bits variable_bits) = Inr D"
      and "concat (decompressed_data D) = replicate n b" by blast
  then show "fst (lzw_decompress (fst (lzw_compress (replicate n b) max_bits variable_bits))
        max_bits variable_bits) = Inr (replicate n b)"
    using fst_lzw_decompress by simp
qed

theorem forward_reference_witness:
  "table (decompress_init 12 False [0x41]) (Some 256) = None \<and>
   Some 256 = Some (dec_next_code (decompress_init 12 False [0x41])) \<and>
   (\<exists>st'. decompress_step 12 False (decompress_init 12 False [0x41]) (Some 256) = Inr st' \<and>
      decompressed_data st' = [[0x41], [0x41, 0x41]] \<and>
      dec_current_bytes st' = [0x41, 0x41]) \<and>
   (0::nat) < 500 \<and>
   fst (lzw_decompress (fst (lzw_compress (replicate 500 0x41) 12 False)) 12 False) =
     Inr (replicate 500 0x41)"
  using forward_reference [of "decompress_init 12 False [0x41]" "Some 256" 12 False 500 "0x41"]
  by (simp add: initial_table_eq)

text \<open>
  C3, as stated, on the input \<^verbatim>\<open>b"AB"\<close>: when the loop is over the encoder has emitted one
  code, 65, and its trie registers \<^verbatim>\<open>b"AB"\<close> under 256; the decoder that has consumed this
  one code has no entry 256 yet.
\<close>

theorem dictionary_parity_counterexample:
  "compressed_data (compress_loop 12 False [0x41, 0x42]) = [Some 65] \<and>
   fst (decompress_run [Some 65] 12 False) = Inr (decompress_init 12 False [0x41]) \<and>
   trie_holds (trie (compress_loop 12 False [0x41, 0x42])) [0x41, 0x42] (Some 256) \<and>
   \<not> table_holds (table (decompress_init 12 False [0x41])) [0x41, 0x42] (Some 256)"
proof -
  let ?E1 = "(compress_init 12 False)\<lparr>current_bytes := [0x41]\<rparr>"
  have E: "compress_loop 12 False [0x41, 0x42] = compress_step 12 False ?E1 0x42"
    using compress_loop_append [of 12 False "[0x41]" "[0x42]"] by (simp add: compress_loop_single)
  have miss: "Trie_search (trie ?E1) (current_bytes ?E1 @ [0x42]) = None"
    by (simp add: search_initial_trie)
  have "uint (0x41 :: byte) = 65" by simp
  with decompress_run_single [of "0x41" 12 False]
  have run: "fst (decompress_run [Some 65] 12 False) = Inr (decompress_init 12 False [0x41])"
    by simp
  show ?thesis
    unfolding E trie_holds_def table_holds_def compress_step_miss(2,4) [OF miss]
    using run by (simp add: search_initial_trie initial_table_eq)
qed

text \<open>
  C3, amended: the decoder is one code behind. For every non-empty input and every point of
  the encoder's loop (the bytes \<open>p\<close> consumed, \<open>k\<close> codes emitted so far), the code list
  that \<^verbatim>\<open>lzw_compress\<close> returns has at least \<open>k + 1\<close> codes, the decoder consumes the first
  \<open>k + 1\<close> of them without raising, and its table then holds exactly the pairs of the
  encoder's trie at that point. With \<open>p\<close> the whole input this is the end of both runs.
\<close>

theorem dictionary_parity_one_ahead:
  assumes "input_bytes = p @ q" and "input_bytes \<noteq> []"
  shows "\<exists>D. Suc (length (compressed_data (compress_loop max_bits variable_bits p)))
               \<le> length (fst (lzw_compress input_bytes max_bits variable_bits)) \<and>
           fst (decompress_run
                 (take (Suc (length (compressed_data (compress_loop max_bits variable_bits p))))
                    (fst (lzw_compress input_bytes max_bits variable_bits)))
                 max_bits variable_bits) = Inr D \<and>
           (\<forall>s k. trie_holds (trie (compress_loop max_bits variable_bits p)) s k \<longleftrightarrow>
                   table_holds (table D) s k)"
proof -
  let ?mb = max_bits and ?vw = variable_bits
  let ?E = "compress_loop ?mb ?vw p"
  consider "p = []" | b where "p = [b]" | b b2 bs where "p = b # b2 # bs"
    by (cases p; cases "tl p") auto
  then show ?thesis
  proof cases
    case 3
    from synced_reach [of ?mb ?vw b b2 bs] obtain D0 where "synced ?mb ?vw ?E D0 p"
      unfolding 3 by blast
    then have L: "lockstep ?mb ?vw ?E D0"
      and run: "fst (decompress_run (compressed_data ?E) ?mb ?vw) = Inr D0"
      by (simp_all add: synced_def)
    from next_token [OF L, of q] obtain c X D
      where out: "compress_flush (foldl (compress_step ?mb ?vw) ?E q) = compressed_data ?E @ c # X"
        and D: "decompress_step ?mb ?vw D0 c = Inr D"
        and par: "\<forall>s k. trie_holds (trie ?E) s k \<longleftrightarrow> table_holds (table D) s k"
      by blast
    have codes: "fst (lzw_compress input_bytes ?mb ?vw) = compressed_data ?E @ c # X"
      unfolding fst_lzw_compress assms(1) compress_loop_append by (rule out)
    have "fst (decompress_run (take (Suc (length (compressed_data ?E)))
             (fst (lzw_compress input_bytes ?mb ?vw))) ?mb ?vw) = Inr D"
      unfolding codes using decompress_run_snoc [OF run, of c] D by simp
    with par codes show ?thesis by auto
  next
    case 1
    from assms(2) obtain b r where x: "input_bytes = b # r" by (cases input_bytes) auto
    from first_code [of b r ?mb ?vw] obtain X
      where codes: "fst (lzw_compress input_bytes ?mb ?vw) = Some (uint b) # X"
      unfolding x ..
    have "trie_holds (trie ?E) s k \<longleftrightarrow> table_holds (table (decompress_init ?mb ?vw [b])) s k"
      for s k
      unfolding 1 by (rule parityI) (simp_all add: initial_parity compress_loop_def)
    moreover have "compressed_data ?E = []" unfolding 1 by (simp add: compress_loop_def)
    ultimately show ?thesis
      unfolding codes using decompress_run_single [of b ?mb ?vw] by auto
  next
    case 2
    from assms 2 obtain r where x: "input_bytes = b # r" by auto
    from first_code [of b r ?mb ?vw] obtain X
      where codes: "fst (lzw_compress input_bytes ?mb ?vw) = Some (uint b) # X"
      unfolding x ..
    have "trie_holds (trie ?E) s k \<longleftrightarrow> table_holds (table (decompress_init ?mb ?vw [b])) s k"
      for s k
      unfolding 2 compress_loop_single by (rule parityI) (simp_all add: initial_parity)
    moreover have "compressed_data ?E = []" unfolding 2 compress_loop_single by simp
    ultimately show ?thesis
      unfolding codes using decompress_run_single [of b ?mb ?vw] by auto
  qed
qed

theorem dictionary_parity_one_ahead_witness:
  "[0x41, 0x42, 0x43] = [0x41, 0x42] @ [0x43 :: byte] \<and> [0x41, 0x42, 0x43] \<noteq> ([] :: byte list) \<and>
   (\<exists>D. Suc (length (compressed_data (compress_loop 12 False [0x41, 0x42])))
               \<le> length (fst (lzw_compress [0x41, 0x42, 0x43] 12 False)) \<and>
           fst (decompress_run
                 (take (Suc (length (compressed_data (compress_loop 12 False [0x41, 0x42]))))
                    (fst (lzw_compress [0x41, 0x42, 0x43] 12 False)))
                 12 False) = Inr D \<and>
           (\<forall>s k. trie_holds (trie (compress_loop 12 False [0x41, 0x42])) s k \<longleftrightarrow>
                   table_holds (table D) s k))"
  using dictionary_parity_one_ahead [of "[0x41, 0x42, 0x43]" "[0x41, 0x42]" "[0x43]" 12 False]
  by simp

text \<open>
  C4, at the code list \<^verbatim>\<open>[5000]\<close> with 12 bits: the first code is looked up with
  \<^verbatim>\<open>table[current_code]\<close> before the loop, without the test that the loop makes, so the call
  ends with the dictionary's \<^verbatim>\<open>KeyError\<close> and not with the \<^verbatim>\<open>ValueError\<close> that the loop
  raises for an invalid code, as it does for the same code in second place.
\<close>

theorem first_code_unchecked:
  "lzw_decompress [Some 5000] 12 variable_bits = (Inl KeyError, []) \<and>
   fst (lzw_decompress [Some 65, Some 5000] 12 variable_bits) = Inl ValueError"
  by (simp add: lzw_decompress_def decompress_run_def initial_table_eq decompress_step_def)

text \<open>
  C7: with \<^verbatim>\<open>max_bits\<close> at least 9, the values that \<^verbatim>\<open>current_code_size\<close> takes during one
  run of the encoder's loop, and of the decoder's loop on any code list, are non-decreasing,
  start at 9 and stay at or below \<^verbatim>\<open>max_bits\<close> when the width is variable, and all equal
  \<^verbatim>\<open>max_bits\<close> when it is fixed. The width that \<^verbatim>\<open>lzw_compress\<close> returns is the last of them.
\<close>

theorem widths_monotone:
  assumes "9 \<le> max_bits"
  shows "(variable_bits \<longrightarrow>
            sorted (map current_code_size
              (compress_states max_bits variable_bits (compress_init max_bits variable_bits) input_bytes)) \<and>
            current_code_size (hd
              (compress_states max_bits variable_bits (compress_init max_bits variable_bits) input_bytes)) = 9 \<and>
            (\<forall>st \<in> set (compress_states max_bits variable_bits
                          (compress_init max_bits variable_bits) input_bytes).
               current_code_size st \<le> max_bits) \<and>
            sorted (map dec_current_code_size
              (decompress_states max_bits variable_bits (decompress_init max_bits variable_bits cb) codes)) \<and>
            dec_current_code_size (hd
              (decompress_states max_bits variable_bits (decompress_init max_bits variable_bits cb) codes)) = 9 \<and>
            (\<forall>st \<in> set (decompress_states max_bits variable_bits
                          (decompress_init max_bits variable_bits cb) codes).
               dec_current_code_size st \<le> max_bits)) \<and>
         (\<not> variable_bits \<longrightarrow>
            (\<forall>st \<in> set (compress_states max_bits variable_bits
                          (compress_init max_bits variable_bits) input_bytes).
               current_code_size st = max_bits) \<and>
            (\<forall>st \<in> set (decompress_states max_bits variable_bits
                          (decompress_init max_bits variable_bits cb) codes).
               dec_current_code_size st = max_bits)) \<and>
         snd (lzw_compress input_bytes max_bits variable_bits) =
           current_code_size (last
              (compress_states max_bits variable_bits (compress_init max_bits variable_bits) input_bytes))"
proof -
  note c = compress_states_widths [of max_bits variable_bits
      "compress_init max_bits variable_bits" input_bytes]
  note d = decompress_states_widths [of max_bits variable_bits
      "decompress_init max_bits variable_bits cb" codes]
  have l: "snd (lzw_compress input_bytes max_bits variable_bits) =
           current_code_size (last
              (compress_states max_bits variable_bits (compress_init max_bits variable_bits) input_bytes))"
    by (simp add: lzw_compress_def Let_def last_compress_states compress_loop_def)
  show ?thesis
  proof (cases variable_bits)
    case True
    with c d assms l show ?thesis by simp
  next
    case False
    with c d l show ?thesis by simp
  qed
qed

theorem widths_monotone_witness:
  "(9::nat) \<le> 12 \<and>
   sorted (map current_code_size
     (compress_states 12 True (compress_init 12 True) [0x41, 0x42])) \<and>
   current_code_size (hd (compress_states 12 True (compress_init 12 True) [0x41, 0x42])) = 9 \<and>
   list_all (\<lambda>st. current_code_size st \<le> 12)
     (compress_states 12 True (compress_init 12 True) [0x41, 0x42]) \<and>
   sorted (map dec_current_code_size
     (decompress_states 12 True (decompress_init 12 True [0x41]) [Some 66])) \<and>
   list_all (\<lambda>st. dec_current_code_size st \<le> 12)
     (decompress_states 12 True (decompress_init 12 True [0x41]) [Some 66])"
proof -
  have h: "(9::nat) \<le> 12" by simp
  from widths_monotone [OF h, of True "[0x41, 0x42]" "[0x41]" "[Some 66]"] h
  show ?thesis unfolding list_all_iff by blast
qed

text \<open>
  C10: the code list that \<^verbatim>\<open>lzw_compress\<close> returns contains no \<^verbatim>\<open>None\<close>. At each point
  of the loop (the bytes \<open>p\<close> consumed, \<open>b\<close> the next byte), if the extended sequence is
  not in the trie, so that a code is emitted, the lookup of the current match finds a code;
  and so does the lookup of the flush whenever the current match is not empty.
\<close>

theorem emitted_codes_found:
  "None \<notin> set (fst (lzw_compress input_bytes max_bits variable_bits)) \<and>
   (Trie_search (trie (compress_loop max_bits variable_bits p))
      (current_bytes (compress_loop max_bits variable_bits p) @ [b]) = None \<longrightarrow>
    Trie_search (trie (compress_loop max_bits variable_bits p))
      (current_bytes (compress_loop max_bits variable_bits p)) \<noteq> None) \<and>
   (current_bytes (compress_loop max_bits variable_bits p) \<noteq> [] \<longrightarrow>
    Trie_search (trie (compress_loop max_bits variable_bits p))
      (current_bytes (compress_loop max_bits variable_bits p)) \<noteq> None)"
proof -
  note i = compress_inv_loop [of max_bits variable_bits input_bytes]
  note j = compress_inv_loop [of max_bits variable_bits p]
  have 1: "None \<notin> set (fst (lzw_compress input_bytes max_bits variable_bits))"
    using i by (auto simp: fst_lzw_compress compress_flush_def)
  have "current_bytes (compress_loop max_bits variable_bits p) \<noteq> []"
    if "Trie_search (trie (compress_loop max_bits variable_bits p))
      (current_bytes (compress_loop max_bits variable_bits p) @ [b]) = None"
    by (rule compress_step_miss_nonempty [OF _ that]) (simp add: j)
  with 1 j show ?thesis by blast
qed

theorem emitted_codes_found_witness:
  "Trie_search (trie (compress_loop 12 False [0x41]))
      (current_bytes (compress_loop 12 False [0x41]) @ [0x42]) = None \<and>
   Trie_search (trie (compress_loop 12 False [0x41]))
      (current_bytes (compress_loop 12 False [0x41])) \<noteq> None \<and>
   current_bytes (compress_loop 12 False [0x41]) \<noteq> [] \<and>
   None \<notin> set (fst (lzw_compress [0x41, 0x42] 12 False))"
  using emitted_codes_found [of "[0x41, 0x42]" 12 False "[0x41]" "0x42"]
  by (simp add: compress_loop_single search_initial_trie)

text \<open>
  C8: with \<^verbatim>\<open>max_bits\<close> at least 9, every element of the code list that \<^verbatim>\<open>lzw_compress\<close>
  returns is an integer \<open>c \<ge> 0\<close> that is either one of the codes 0 to 255 of the initial
  table, below two to the power of the initial width, or was handed out by
  \<^verbatim>\<open>get_next_code\<close> at a moment of the run when it was below two to the power of the
  current width. At every point of the encoder's loop the sequence registered under the
  code of a byte is that single byte, and after every run of the decoder that does not raise
  the table maps the code of each byte to that single byte.
\<close>

theorem code_range:
  assumes "9 \<le> max_bits"
  shows "(\<forall>k \<in> set (fst (lzw_compress input_bytes max_bits variable_bits)).
            \<exists>c. k = Some c \<and> 0 \<le> c \<and>
              (c < 256 \<and> c < 2 ^ (if variable_bits then 9 else max_bits) \<or>
               assigned_in max_bits variable_bits input_bytes c)) \<and>
         (Trie_search (trie (compress_loop max_bits variable_bits p)) s = Some (uint b) \<longleftrightarrow>
            s = [b]) \<and>
         (fst (decompress_run codes max_bits variable_bits) = Inr D \<longrightarrow>
            table D (Some (uint b)) = Some [b])"
proof (intro conjI ballI impI)
  fix k
  assume "k \<in> set (fst (lzw_compress input_bytes max_bits variable_bits))"
  from returned_codes [OF this] obtain c where k: "k = Some c"
    and c: "(0 \<le> c \<and> c < 256) \<or> (256 \<le> c \<and> assigned_in max_bits variable_bits input_bytes c)"
    by blast
  have "(2::int) ^ 9 \<le> 2 ^ (if variable_bits then 9 else max_bits)"
    using assms by (intro power_increasing) simp_all
  then have "(256::int) < 2 ^ (if variable_bits then 9 else max_bits)" by simp
  with c have "0 \<le> c \<and>
              (c < 256 \<and> c < 2 ^ (if variable_bits then 9 else max_bits) \<or>
               assigned_in max_bits variable_bits input_bytes c)"
    by (elim disjE conjE) simp_all
  with k show "\<exists>c. k = Some c \<and> 0 \<le> c \<and>
              (c < 256 \<and> c < 2 ^ (if variable_bits then 9 else max_bits) \<or>
               assigned_in max_bits variable_bits input_bytes c)" by blast
next
  show "Trie_search (trie (compress_loop max_bits variable_bits p)) s = Some (uint b) \<longleftrightarrow>
            s = [b]" by (rule trie_single_codes)
next
  assume "fst (decompress_run codes max_bits variable_bits) = Inr D"
  then show "table D (Some (uint b)) = Some [b]" by (rule decompress_run_singles)
qed

theorem code_range_witness:
  "(9::nat) \<le> 12 \<and>
   list_all (\<lambda>k. \<exists>c. k = Some c \<and> 0 \<le> c \<and>
        (c < 256 \<and> c < 2 ^ 12 \<or> assigned_in 12 False [0x41, 0x42] c))
     (fst (lzw_compress [0x41, 0x42] 12 False)) \<and>
   Trie_search (trie (compress_loop 12 False [0x41])) [0x41] = Some 65 \<and>
   fst (decompress_run [Some 65] 12 False) = Inr (decompress_init 12 False [0x41]) \<and>
   table (decompress_init 12 False [0x41]) (Some 65) = Some [0x41]"
proof -
  have h: "(9::nat) \<le> 12" by simp
  have u: "uint (0x41 :: byte) = 65" by simp
  have run: "fst (decompress_run [Some 65] 12 False) = Inr (decompress_init 12 False [0x41])"
    using decompress_run_single [of "0x41" 12 False] u by simp
  from code_range [OF h, of "[0x41, 0x42]" False "[0x41]" "[0x41]" "0x41" "[Some 65]"
      "decompress_init 12 False [0x41]"] h run u
  show ?thesis unfolding list_all_iff by simp
qed

end
